theory Spec2Isabelle
  imports Main "HOL-Library.Sublist"
begin

section \<open>Python strings\<close>

text \<open>
  Strings are lists of characters. The character classes below are the ASCII part of
  what Python's \<^verbatim>\<open>str\<close> methods use: \<^verbatim>\<open>str.split()\<close> and \<^verbatim>\<open>str.strip()\<close>
  treat tab, line feed, vertical tab, form feed, carriage return, the four separators
  0x1C..0x1F and the space as whitespace, and \<^verbatim>\<open>str.lower()\<close> maps A..Z to a..z.
  Characters beyond ASCII are kept as they are and are never whitespace.
  Python's \<^verbatim>\<open>p in s\<close> on strings is \<^const>\<open>sublist\<close> (a contiguous run), and
  \<^verbatim>\<open>s.endswith(e)\<close> is \<^const>\<open>suffix\<close>.
\<close>

definition is_space :: "char \<Rightarrow> bool" where
  "is_space c = (let n = (of_char c :: nat) in (9 \<le> n \<and> n \<le> 13) \<or> (28 \<le> n \<and> n \<le> 32))"

definition lower_char :: "char \<Rightarrow> char" where
  "lower_char c = (let n = (of_char c :: nat) in if 65 \<le> n \<and> n \<le> 90 then char_of (n + 32) else c)"

definition lower :: "string \<Rightarrow> string" where
  "lower s = map lower_char s"

text \<open>\<^verbatim>\<open>s.split()\<close>: the maximal runs of non-whitespace characters, in order. The first
  argument is the run read so far.\<close>

fun split_ws :: "string \<Rightarrow> string \<Rightarrow> string list" where
  "split_ws cur [] = (if cur = [] then [] else [cur])"
| "split_ws cur (c # cs) =
     (if is_space c then (if cur = [] then split_ws [] cs else cur # split_ws [] cs)
      else split_ws (cur @ [c]) cs)"

definition py_split :: "string \<Rightarrow> string list" where
  "py_split s = split_ws [] s"

text \<open>\<^verbatim>\<open>s.split(sep)\<close> for a one-character separator: always at least one piece.\<close>

fun split_sep :: "char \<Rightarrow> string \<Rightarrow> string \<Rightarrow> string list" where
  "split_sep sep cur [] = [cur]"
| "split_sep sep cur (c # cs) =
     (if c = sep then cur # split_sep sep [] cs else split_sep sep (cur @ [c]) cs)"

definition py_split_on :: "char \<Rightarrow> string \<Rightarrow> string list" where
  "py_split_on sep s = split_sep sep [] s"

text \<open>\<^verbatim>\<open>sep.join(xs)\<close>.\<close>

fun join :: "string \<Rightarrow> string list \<Rightarrow> string" where
  "join sep [] = []"
| "join sep [x] = x"
| "join sep (x # y # ys) = x @ sep @ join sep (y # ys)"

text \<open>\<^verbatim>\<open>s.strip()\<close>.\<close>

definition py_strip :: "string \<Rightarrow> string" where
  "py_strip s = rev (dropWhile is_space (rev (dropWhile is_space s)))"

definition newline :: char where
  "newline = CHR 0x0A"

section \<open>The document tree\<close>

text \<open>
  A parsed page as BeautifulSoup's \<^verbatim>\<open>html.parser\<close> builder gives it: an element has a
  name, attributes and contents; a text node is a string. Of the attributes the crawler
  reads three: \<^verbatim>\<open>class\<close> (multi-valued, so a list of tokens when present), \<^verbatim>\<open>id\<close> and
  \<^verbatim>\<open>href\<close> (strings when present). The \<^verbatim>\<open>BeautifulSoup\<close> object itself is the list of
  top-level nodes: \<^verbatim>\<open>find_all\<close>, \<^verbatim>\<open>find\<close> and \<^verbatim>\<open>get_text\<close> range over its descendants
  and never over the object itself. Nodes that carry no text for \<^verbatim>\<open>get_text\<close> and are
  no elements (comments, the doctype) are left out.
\<close>

record attrs =
  class_attr :: "string list option"
  id_attr :: "string option"
  href_attr :: "string option"

datatype node = Text string | Element string attrs "node list"

type_synonym soup = "node list"

text \<open>
  \<^verbatim>\<open>for element in soup.find_all(...): if P(element): element.decompose()\<close>.
  \<^verbatim>\<open>find_all\<close> builds its result list before the loop starts, and \<^verbatim>\<open>decompose\<close>
  detaches an element with everything below it. The elements below a decomposed element
  are still visited by the loop, but they are no longer part of the tree, so whatever
  happens to them leaves the tree as it is. The tree after the loop is the tree without
  the subtrees whose root satisfies \<open>P\<close>; \<open>P\<close> reads the name and the attributes only.
\<close>

fun decompose_where :: "(string \<Rightarrow> attrs \<Rightarrow> bool) \<Rightarrow> node list \<Rightarrow> node list" where
  "decompose_where P [] = []"
| "decompose_where P (Text s # ns) = Text s # decompose_where P ns"
| "decompose_where P (Element t a cs # ns) =
     (if P t a then decompose_where P ns
      else Element t a (decompose_where P cs) # decompose_where P ns)"

text \<open>\<^verbatim>\<open>find\<close>: the first matching element in document order, or \<^verbatim>\<open>None\<close>.\<close>

fun find_first :: "(string \<Rightarrow> attrs \<Rightarrow> bool) \<Rightarrow> node list \<Rightarrow> node option" where
  "find_first P [] = None"
| "find_first P (Text s # ns) = find_first P ns"
| "find_first P (Element t a cs # ns) =
     (if P t a then Some (Element t a cs)
      else (case find_first P cs of Some e \<Rightarrow> Some e | None \<Rightarrow> find_first P ns))"

text \<open>\<^verbatim>\<open>find_all\<close>: all matching elements in document order.\<close>

fun find_all :: "(string \<Rightarrow> attrs \<Rightarrow> bool) \<Rightarrow> node list \<Rightarrow> node list" where
  "find_all P [] = []"
| "find_all P (Text s # ns) = find_all P ns"
| "find_all P (Element t a cs # ns) =
     (if P t a then [Element t a cs] else []) @ find_all P cs @ find_all P ns"

text \<open>The strings \<^verbatim>\<open>get_text\<close> joins: every text node below, in document order.\<close>

fun all_strings :: "node list \<Rightarrow> string list" where
  "all_strings [] = []"
| "all_strings (Text s # ns) = s # all_strings ns"
| "all_strings (Element t a cs # ns) = all_strings cs @ all_strings ns"

fun get_text :: "string \<Rightarrow> node \<Rightarrow> string" where
  "get_text sep (Text s) = s"
| "get_text sep (Element t a cs) = join sep (all_strings cs)"

section \<open>The boilerplate classifier\<close>

definition nav_tags :: "string list" where
  "nav_tags = [''nav'', ''header'', ''footer'']"

definition nav_classes :: "string list" where
  "nav_classes = [''navigation'', ''nav'', ''navbar'', ''menu'', ''header'', ''footer'', ''bottom'']"

definition nav_ids :: "string list" where
  "nav_ids = [''navigation'', ''nav'', ''navbar'', ''menu'', ''header'', ''footer'', ''bottom'']"

definition fuzzy_patterns :: "string list" where
  "fuzzy_patterns = [''nav'', ''menu'', ''header'', ''footer'']"

text \<open>
  \<^verbatim>\<open>is_navigation_element\<close> on an element of the tree. An element is always truthy and
  has a name, so the first guard never fires; reading an attribute of such an element
  never raises, so the \<^verbatim>\<open>except\<close> branch is not reached.
  The class tokens are compared as a set (\<^verbatim>\<open>pattern in element_classes\<close>), the id as
  a substring (\<^verbatim>\<open>pattern in element_id\<close>); the last loop joins the class tokens with
  spaces and looks for the four short patterns in the class and in the id.
\<close>

definition is_navigation_element :: "string \<Rightarrow> attrs \<Rightarrow> bool" where
  "is_navigation_element name a =
     (if name \<in> set nav_tags then True
      else let element_classes =
                 (case class_attr a of None \<Rightarrow> [] | Some cl \<Rightarrow> if cl = [] then [] else map lower cl)
        in if list_ex (\<lambda>pattern. pattern \<in> set element_classes) nav_classes then True
      else let element_id = lower (case id_attr a of None \<Rightarrow> [] | Some i \<Rightarrow> i)
        in if list_ex (\<lambda>pattern. sublist pattern element_id) nav_ids then True
      else let class_value = lower (case class_attr a of None \<Rightarrow> [] | Some cl \<Rightarrow> join '' '' cl)
        in if list_ex (\<lambda>pattern. sublist pattern class_value) fuzzy_patterns then True
      else let id_value = lower (case id_attr a of None \<Rightarrow> [] | Some i \<Rightarrow> i)
        in if list_ex (\<lambda>pattern. sublist pattern id_value) fuzzy_patterns then True
      else False)"

section \<open>The content filter\<close>

definition non_content_tags :: "string list" where
  "non_content_tags = [''script'', ''style'', ''head'', ''noscript'', ''iframe'']"

definition is_non_content :: "string \<Rightarrow> attrs \<Rightarrow> bool" where
  "is_non_content name a = (name \<in> set non_content_tags)"

text \<open>
  \<^verbatim>\<open>re.compile(r'content|main|article')\<close> searched in a string, and the way \<^verbatim>\<open>find\<close>
  matches it against a multi-valued \<^verbatim>\<open>class\<close>: some token matches, or the tokens joined
  by spaces match.
\<close>

definition content_re :: "string \<Rightarrow> bool" where
  "content_re s = (sublist ''content'' s \<or> sublist ''main'' s \<or> sublist ''article'' s)"

definition class_matches :: "string \<Rightarrow> attrs \<Rightarrow> bool" where
  "class_matches name a =
     (case class_attr a of None \<Rightarrow> False
      | Some cl \<Rightarrow> list_ex content_re cl \<or> content_re (join '' '' cl))"

definition is_main_tag :: "string \<Rightarrow> attrs \<Rightarrow> bool" where
  "is_main_tag name a = (name \<in> set [''main'', ''article''])"

definition banned_words :: "string list" where
  "banned_words = [''menu'', ''navigation'', ''skip to content'']"

text \<open>The condition of the list comprehension that builds \<^verbatim>\<open>cleaned_lines\<close>.\<close>

definition keep_line :: "string \<Rightarrow> bool" where
  "keep_line line =
     (length (py_split line) > 3 \<and> \<not> list_ex (\<lambda>nav. sublist nav (lower line)) banned_words)"

text \<open>The two removal loops at the head of \<^verbatim>\<open>extract_text\<close>.\<close>

definition strip_chrome :: "soup \<Rightarrow> soup" where
  "strip_chrome sp = decompose_where is_navigation_element (decompose_where is_non_content sp)"

text \<open>
  The rest of \<^verbatim>\<open>extract_text\<close>, which only reads the tree: pick the content region,
  take its text, collapse whitespace, filter the lines.
\<close>

definition clean_text :: "string \<Rightarrow> string" where
  "clean_text text =
     (let text1 = join '' '' (py_split text);
          lines = py_split_on newline text1;
          cleaned_lines = filter keep_line lines
      in join [newline] cleaned_lines)"

definition region_text :: "soup \<Rightarrow> string" where
  "region_text sp =
     (let main_content =
            (case find_first is_main_tag sp of Some e \<Rightarrow> Some e
             | None \<Rightarrow> find_first class_matches sp);
          text = (case main_content of Some e \<Rightarrow> get_text '' '' e
                  | None \<Rightarrow> join '' '' (all_strings sp))
      in if text = [] then [] else clean_text text)"

text \<open>
  \<^verbatim>\<open>extract_text\<close> changes the tree it is given, so the model returns the text together
  with the tree as the call leaves it. A \<^verbatim>\<open>BeautifulSoup\<close> object is truthy, so the
  guard \<^verbatim>\<open>if not soup\<close> does not fire, and no step on a tree of this type raises
  \<^verbatim>\<open>AttributeError\<close> or \<^verbatim>\<open>TypeError\<close>.
\<close>

definition extract_text :: "soup \<Rightarrow> string \<times> soup" where
  "extract_text sp = (let sp' = strip_chrome sp in (region_text sp', sp'))"


section \<open>The environment: transport, parser, URL library, sink\<close>

text \<open>
  What the crawler calls and does not define is a parameter of the model:
  \<^item> \<^verbatim>\<open>requests.get(url, timeout=10)\<close>: no response (the call raises: timeout, connection
    failure) or a status code and a body;
  \<^item> \<^verbatim>\<open>BeautifulSoup(text, 'html.parser')\<close>: a tree, or nothing when the constructor raises;
  \<^item> \<^verbatim>\<open>open(output_file, 'w')\<close> and \<^verbatim>\<open>file.write\<close>: the file as the write leaves it,
    or nothing when the call raises;
  \<^item> the order in which \<^verbatim>\<open>for link in links\<close> goes through the set \<^verbatim>\<open>links\<close>; the set
    is kept as the list of its members in the order of their insertion;
  \<^item> \<^verbatim>\<open>urlparse(url).netloc\<close> and \<^verbatim>\<open>urljoin(base, url)\<close>, which raise \<^verbatim>\<open>ValueError\<close>
    on some inputs.
  The pause \<^verbatim>\<open>time.sleep(self.delay)\<close> changes no value and is left out, as are the
  arguments of the logger beyond the URL and the error.
\<close>

datatype error = Transport_error | Http_error nat | Parse_error | Sink_error | Value_error

datatype log_entry =
    Info_crawling string
  | Error_processing string error
  | Info_completed nat
  | Error_crawling_failed error

record 'f env =
  http_get :: "string \<Rightarrow> (nat \<times> string) option"
  html_parse :: "string \<Rightarrow> soup option"
  open_file :: "string \<Rightarrow> 'f option"
  file_write :: "'f \<Rightarrow> string \<Rightarrow> 'f option"
  set_order :: "string list \<Rightarrow> string list"
  url_netloc :: "string \<Rightarrow> string option"
  url_join :: "string \<Rightarrow> string \<Rightarrow> string option"

section \<open>The crawler\<close>

text \<open>
  The fields of \<^verbatim>\<open>WebCrawler\<close> that never change after \<^verbatim>\<open>__init__\<close> are the record
  \<open>crawler\<close>; what a run changes is the record \<open>state\<close>: \<^verbatim>\<open>self.visited_urls\<close>, the open
  file (\<open>sink\<close>), the log, and the list of the URLs handed to \<^verbatim>\<open>requests.get\<close> so far, oldest
  first, which the code does not keep but which the claims speak about.
\<close>

record crawler =
  base_url :: string
  domain :: string
  output_file :: string

record 'f state =
  visited_urls :: "string set"
  sink :: 'f
  requests :: "string list"
  log :: "log_entry list"

definition new_crawler :: "'f env \<Rightarrow> string \<Rightarrow> string \<Rightarrow> error + crawler" where
  "new_crawler env url out =
     (case url_netloc env url of
        None \<Rightarrow> Inl Value_error
      | Some d \<Rightarrow> Inr \<lparr>base_url = url, domain = d, output_file = out\<rparr>)"

definition asset_extensions :: "string list" where
  "asset_extensions = [''.pdf'', ''.jpg'', ''.png'', ''.gif'']"

definition is_valid_url :: "'f env \<Rightarrow> crawler \<Rightarrow> string set \<Rightarrow> string \<Rightarrow> error + bool" where
  "is_valid_url env cr visited url =
     (case url_netloc env url of
        None \<Rightarrow> Inl Value_error
      | Some parsed_netloc \<Rightarrow>
          Inr (parsed_netloc = domain cr \<and> url \<notin> visited
               \<and> \<not> list_ex (\<lambda>ext. suffix ext url) asset_extensions))"

text \<open>\<^verbatim>\<open>links.add(x)\<close> on the set kept as a list.\<close>

definition set_add :: "string \<Rightarrow> string list \<Rightarrow> string list" where
  "set_add x xs = (if x \<in> set xs then xs else xs @ [x])"

fun href_of :: "node \<Rightarrow> string option" where
  "href_of (Text s) = None"
| "href_of (Element t a cs) = href_attr a"

text \<open>The loop of \<^verbatim>\<open>get_links\<close> over the anchors found; an exception ends it.\<close>

fun collect_links ::
  "'f env \<Rightarrow> crawler \<Rightarrow> string set \<Rightarrow> string \<Rightarrow> node list \<Rightarrow> string list \<Rightarrow> error + string list" where
  "collect_links env cr visited current_url [] links = Inr links"
| "collect_links env cr visited current_url (link # rest) links =
     (case href_of link of
        None \<Rightarrow> collect_links env cr visited current_url rest links
      | Some href \<Rightarrow>
          if href = [] then collect_links env cr visited current_url rest links
          else (case url_join env current_url href of
                  None \<Rightarrow> Inl Value_error
                | Some absolute_url \<Rightarrow>
                    (case is_valid_url env cr visited absolute_url of
                       Inl e \<Rightarrow> Inl e
                     | Inr valid \<Rightarrow>
                         collect_links env cr visited current_url rest
                           (if valid then set_add absolute_url links else links))))"

definition is_anchor :: "string \<Rightarrow> attrs \<Rightarrow> bool" where
  "is_anchor name a = (name = ''a'')"

definition get_links :: "'f env \<Rightarrow> crawler \<Rightarrow> string set \<Rightarrow> soup \<Rightarrow> string \<Rightarrow> error + string list" where
  "get_links env cr visited sp current_url =
     collect_links env cr visited current_url (find_all is_anchor sp) []"

text \<open>The two writes of \<^verbatim>\<open>_crawl_url\<close>, guarded by \<^verbatim>\<open>if text.strip()\<close>. The file is
  returned as the last successful write left it.\<close>

definition content_header :: "string \<Rightarrow> string" where
  "content_header url = [newline, newline] @ ''=== Content from: '' @ url @ '' ==='' @ [newline]"

definition save_text :: "'f env \<Rightarrow> string \<Rightarrow> string \<Rightarrow> 'f \<Rightarrow> 'f \<times> error option" where
  "save_text env url text f =
     (if py_strip text = [] then (f, None)
      else (case file_write env f (content_header url) of
              None \<Rightarrow> (f, Some Sink_error)
            | Some f1 \<Rightarrow>
                (case file_write env f1 text of
                   None \<Rightarrow> (f1, Some Sink_error)
                 | Some f2 \<Rightarrow> (f2, None))))"

text \<open>
  The body of the \<^verbatim>\<open>try\<close> block of \<^verbatim>\<open>_crawl_url\<close> from the parsed page on, up to
  the loop over the links: extract and save the text, then collect the links from the
  tree as \<^verbatim>\<open>extract_text\<close> left it. The result is the state and either the exception
  raised or the links to follow.
\<close>

definition process_page ::
  "'f env \<Rightarrow> crawler \<Rightarrow> string \<Rightarrow> soup \<Rightarrow> 'f state \<Rightarrow> 'f state \<times> (error + string list)" where
  "process_page env cr url sp st =
     (case extract_text sp of
        (text, sp') \<Rightarrow>
          (case save_text env url text (sink st) of
             (f, Some e) \<Rightarrow> (st\<lparr>sink := f\<rparr>, Inl e)
           | (f, None) \<Rightarrow> (st\<lparr>sink := f\<rparr>, get_links env cr (visited_urls st) sp' url)))"

text \<open>\<^verbatim>\<open>requests.get\<close>, \<^verbatim>\<open>raise_for_status\<close> (which raises for the statuses 400 to 599)
  and the parse, then the rest of the block.\<close>

definition visit_page ::
  "'f env \<Rightarrow> crawler \<Rightarrow> string \<Rightarrow> 'f state \<Rightarrow> 'f state \<times> (error + string list)" where
  "visit_page env cr url st =
     (let st1 = st\<lparr>requests := requests st @ [url]\<rparr>
      in case http_get env url of
           None \<Rightarrow> (st1, Inl Transport_error)
         | Some (status, body) \<Rightarrow>
             if 400 \<le> status \<and> status < 600 then (st1, Inl (Http_error status))
             else (case html_parse env body of
                     None \<Rightarrow> (st1, Inl Parse_error)
                   | Some sp \<Rightarrow> process_page env cr url sp st1))"

text \<open>The state at the start of a run, with the file just opened.\<close>

definition initial_state :: "'f \<Rightarrow> 'f state" where
  "initial_state f = \<lparr>visited_urls = {}, sink = f, requests = [], log = []\<rparr>"

text \<open>
  A \<^verbatim>\<open>for\<close> loop whose body is a call that returns the new state and whether it ran
  to its end; the loop stops when a call did not.
\<close>

fun for_each :: "('a \<Rightarrow> 's \<Rightarrow> 's \<times> bool) \<Rightarrow> 'a list \<Rightarrow> 's \<Rightarrow> 's \<times> bool" where
  "for_each body [] s = (s, True)"
| "for_each body (x # xs) s =
     (case body x s of (s', ok) \<Rightarrow> if ok then for_each body xs s' else (s', False))"

text \<open>
  \<^verbatim>\<open>_crawl_url\<close>. The recursion has no bound in the source, so the model counts the
  nesting of calls: the first argument is the depth still allowed. A call at depth 0
  does nothing and reports \<open>False\<close>, and so does every call around it: the second
  component of the result is \<open>True\<close> exactly when the call returned within the depth
  given. Every exception raised inside the \<^verbatim>\<open>try\<close> block is caught by
  \<^verbatim>\<open>except Exception\<close> and logged, so a call never raises.
\<close>

primrec crawl_url :: "'f env \<Rightarrow> crawler \<Rightarrow> nat \<Rightarrow> string \<Rightarrow> 'f state \<Rightarrow> 'f state \<times> bool" where
  "crawl_url env cr 0 = (\<lambda>url st. (st, False))"
| "crawl_url env cr (Suc depth) = (\<lambda>url st.
     if url \<in> visited_urls st then (st, True)
     else (case visit_page env cr url
                  (st\<lparr>visited_urls := insert url (visited_urls st),
                      log := log st @ [Info_crawling url]\<rparr>) of
             (st', Inl e) \<Rightarrow> (st'\<lparr>log := log st' @ [Error_processing url e]\<rparr>, True)
           | (st', Inr links) \<Rightarrow> for_each (crawl_url env cr depth) (set_order env links) st'))"

text \<open>\<^verbatim>\<open>crawl\<close>: open the sink, crawl from the seed, log the summary. When the sink
  cannot be opened nothing is fetched and the failure is logged.\<close>

definition crawl :: "'f env \<Rightarrow> crawler \<Rightarrow> nat \<Rightarrow> log_entry list + ('f state \<times> bool)" where
  "crawl env cr depth =
     (case open_file env (output_file cr) of
        None \<Rightarrow> Inl [Error_crawling_failed Sink_error]
      | Some f \<Rightarrow>
          (case crawl_url env cr depth (base_url cr)
                  (initial_state f) of
             (st, ok) \<Rightarrow>
               Inr (if ok then st\<lparr>log := log st @ [Info_completed (card (visited_urls st))]\<rparr> else st,
                    ok)))"

section \<open>Positions in a tree\<close>

text \<open>A tree with one hole: the nodes before and after the hole at the top level, or
  an element around a tree with a hole. \<open>plug c ns\<close> puts the nodes \<open>ns\<close> in the hole.\<close>

datatype ctx = Hole "node list" "node list" | Inside "node list" string attrs ctx "node list"

fun plug :: "ctx \<Rightarrow> node list \<Rightarrow> node list" where
  "plug (Hole before after) ns = before @ ns @ after"
| "plug (Inside before t a c after) ns = before @ [Element t a (plug c ns)] @ after"

definition no_attrs :: attrs where
  "no_attrs = \<lparr>class_attr = None, id_attr = None, href_attr = None\<rparr>"

section \<open>The URL library on concrete URLs\<close>

text \<open>
  The theorems below hold for every behaviour of the URL library. To run the crawler
  on concrete pages, \<^verbatim>\<open>urlsplit\<close>, \<^verbatim>\<open>urlparse\<close>, \<^verbatim>\<open>urlunparse\<close> and \<^verbatim>\<open>urljoin\<close> of
  \<^verbatim>\<open>urllib.parse\<close> (CPython 3.11.10) are written out for ASCII URLs. \<open>None\<close> is the
  \<^verbatim>\<open>ValueError\<close> for a netloc with one square bracket but not the other; the check of
  what stands between two brackets is not part of the model.
\<close>


record url_parts =
  scheme :: string
  netloc :: string
  path :: string
  params :: string
  query :: string
  fragment :: string

definition uses_relative :: "string list" where
  "uses_relative = ['''', ''ftp'', ''http'', ''gopher'', ''nntp'', ''imap'',
     ''wais'', ''file'', ''https'', ''shttp'', ''mms'',
     ''prospero'', ''rtsp'', ''rtsps'', ''rtspu'', ''sftp'',
     ''svn'', ''svn+ssh'', ''ws'', ''wss'']"

definition uses_netloc :: "string list" where
  "uses_netloc = ['''', ''ftp'', ''http'', ''gopher'', ''nntp'', ''telnet'',
     ''imap'', ''wais'', ''file'', ''mms'', ''https'', ''shttp'',
     ''snews'', ''prospero'', ''rtsp'', ''rtsps'', ''rtspu'', ''rsync'',
     ''svn'', ''svn+ssh'', ''sftp'', ''nfs'', ''git'', ''git+ssh'',
     ''ws'', ''wss'']"

definition uses_params :: "string list" where
  "uses_params = ['''', ''ftp'', ''hdl'', ''prospero'', ''http'', ''imap'',
     ''https'', ''shttp'', ''rtsp'', ''rtsps'', ''rtspu'', ''sip'',
     ''sips'', ''mms'', ''sftp'', ''tel'']"

definition c0_control_or_space :: "char \<Rightarrow> bool" where
  "c0_control_or_space c = ((of_char c :: nat) \<le> 32)"

definition unsafe_url_byte :: "char \<Rightarrow> bool" where
  "unsafe_url_byte c = (let n = (of_char c :: nat) in n = 9 \<or> n = 13 \<or> n = 10)"

definition ascii_alpha :: "char \<Rightarrow> bool" where
  "ascii_alpha c = (let n = (of_char c :: nat) in (65 \<le> n \<and> n \<le> 90) \<or> (97 \<le> n \<and> n \<le> 122))"

definition scheme_char :: "char \<Rightarrow> bool" where
  "scheme_char c =
     (let n = (of_char c :: nat)
      in ascii_alpha c \<or> (48 \<le> n \<and> n \<le> 57) \<or> c = CHR ''+'' \<or> c = CHR ''-'' \<or> c = CHR ''.'')"

definition split_once :: "char \<Rightarrow> string \<Rightarrow> string \<times> string" where
  "split_once d s = (takeWhile (\<lambda>c. c \<noteq> d) s, drop 1 (dropWhile (\<lambda>c. c \<noteq> d) s))"

definition netloc_delim :: "char \<Rightarrow> bool" where
  "netloc_delim c = (c = CHR ''/'' \<or> c = CHR ''?'' \<or> c = CHR ''#'')"

definition splitnetloc :: "string \<Rightarrow> string \<times> string" where
  "splitnetloc s = (takeWhile (\<lambda>c. \<not> netloc_delim c) s, dropWhile (\<lambda>c. \<not> netloc_delim c) s)"

definition urlsplit :: "string \<Rightarrow> string \<Rightarrow> url_parts option" where
  "urlsplit url0 scheme0 =
     (let url1 = filter (\<lambda>c. \<not> unsafe_url_byte c) (dropWhile c0_control_or_space url0);
          scheme1 = filter (\<lambda>c. \<not> unsafe_url_byte c)
                      (rev (dropWhile c0_control_or_space (rev (dropWhile c0_control_or_space scheme0))));
          pre = takeWhile (\<lambda>c. c \<noteq> CHR '':'') url1;
          found = (CHR '':'' \<in> set url1 \<and> pre \<noteq> []
                   \<and> (case url1 of [] \<Rightarrow> False | c # _ \<Rightarrow> ascii_alpha c)
                   \<and> list_all scheme_char pre);
          scheme2 = (if found then lower pre else scheme1);
          url2 = (if found then drop (Suc (length pre)) url1 else url1);
          has_netloc = (take 2 url2 = ''//'');
          netloc2 = (if has_netloc then fst (splitnetloc (drop 2 url2)) else []);
          url3 = (if has_netloc then snd (splitnetloc (drop 2 url2)) else url2)
      in if (CHR ''['' \<in> set netloc2 \<and> CHR '']'' \<notin> set netloc2)
            \<or> (CHR '']'' \<in> set netloc2 \<and> CHR ''['' \<notin> set netloc2)
         then None
         else let url4 = (if CHR ''#'' \<in> set url3 then fst (split_once (CHR ''#'') url3) else url3);
                  fragment4 = (if CHR ''#'' \<in> set url3 then snd (split_once (CHR ''#'') url3) else []);
                  url5 = (if CHR ''?'' \<in> set url4 then fst (split_once (CHR ''?'') url4) else url4);
                  query5 = (if CHR ''?'' \<in> set url4 then snd (split_once (CHR ''?'') url4) else [])
              in Some \<lparr>scheme = scheme2, netloc = netloc2, path = url5, params = [],
                       query = query5, fragment = fragment4\<rparr>)"

definition splitparams :: "string \<Rightarrow> string \<times> string" where
  "splitparams url =
     (let tail = rev (takeWhile (\<lambda>c. c \<noteq> CHR ''/'') (rev url));
          head = take (length url - length tail) url
      in if CHR ''/'' \<in> set url
         then (if CHR '';'' \<in> set tail
               then (head @ fst (split_once (CHR '';'') tail), snd (split_once (CHR '';'') tail))
               else (url, []))
         else (if CHR '';'' \<in> set url then split_once (CHR '';'') url
               else (take (length url - 1) url, url)))"

definition urlparse :: "string \<Rightarrow> string \<Rightarrow> url_parts option" where
  "urlparse url scheme0 =
     (case urlsplit url scheme0 of
        None \<Rightarrow> None
      | Some r \<Rightarrow>
          if scheme r \<in> set uses_params \<and> CHR '';'' \<in> set (path r)
          then Some (r\<lparr>path := fst (splitparams (path r)), params := snd (splitparams (path r))\<rparr>)
          else Some r)"

definition urlunsplit :: "url_parts \<Rightarrow> string" where
  "urlunsplit r =
     (let url = path r;
          url1 = (if netloc r \<noteq> [] \<or> (scheme r \<noteq> [] \<and> scheme r \<in> set uses_netloc) \<or> take 2 url = ''//''
                  then ''//'' @ netloc r @ (if url \<noteq> [] \<and> take 1 url \<noteq> ''/'' then ''/'' @ url else url)
                  else url);
          url2 = (if scheme r \<noteq> [] then scheme r @ '':'' @ url1 else url1);
          url3 = (if query r \<noteq> [] then url2 @ ''?'' @ query r else url2)
      in if fragment r \<noteq> [] then url3 @ ''#'' @ fragment r else url3)"

definition urlunparse :: "url_parts \<Rightarrow> string" where
  "urlunparse r =
     urlunsplit (if params r \<noteq> [] then r\<lparr>path := path r @ '';'' @ params r\<rparr> else r)"

fun resolve_segments :: "string list \<Rightarrow> string list \<Rightarrow> string list" where
  "resolve_segments resolved [] = resolved"
| "resolve_segments resolved (seg # segs) =
     (if seg = ''..'' then resolve_segments (butlast resolved) segs
      else if seg = ''.'' then resolve_segments resolved segs
      else resolve_segments (resolved @ [seg]) segs)"

definition drop_empty_middle :: "string list \<Rightarrow> string list" where
  "drop_empty_middle segments =
     (case segments of
        [] \<Rightarrow> []
      | [x] \<Rightarrow> [x]
      | x # rest \<Rightarrow> x # filter (\<lambda>s. s \<noteq> []) (butlast rest) @ [last rest])"

definition urljoin :: "string \<Rightarrow> string \<Rightarrow> string option" where
  "urljoin base url =
     (if base = [] then Some url
      else if url = [] then Some base
      else (case urlparse base [] of
         None \<Rightarrow> None
       | Some b \<Rightarrow>
          (case urlparse url (scheme b) of
             None \<Rightarrow> None
           | Some u \<Rightarrow>
               if scheme u \<noteq> scheme b \<or> scheme u \<notin> set uses_relative then Some url
               else if scheme u \<in> set uses_netloc \<and> netloc u \<noteq> [] then Some (urlunparse u)
               else let u1 = (if scheme u \<in> set uses_netloc then u\<lparr>netloc := netloc b\<rparr> else u)
                 in if path u1 = [] \<and> params u1 = []
                    then Some (urlunparse (u1\<lparr>path := path b, params := params b,
                                 query := (if query u1 = [] then query b else query u1)\<rparr>))
                    else let base_parts0 = py_split_on (CHR ''/'') (path b);
                             base_parts = (if last base_parts0 \<noteq> [] then butlast base_parts0 else base_parts0);
                             segments = (if take 1 (path u1) = ''/'' then py_split_on (CHR ''/'') (path u1)
                                         else drop_empty_middle (base_parts @ py_split_on (CHR ''/'') (path u1)));
                             resolved0 = resolve_segments [] segments;
                             resolved_path = (if last segments = ''.'' \<or> last segments = ''..''
                                              then resolved0 @ [[]] else resolved0);
                             joined = join ''/'' resolved_path
                         in Some (urlunparse (u1\<lparr>path := (if joined = [] then ''/'' else joined)\<rparr>)))))"

definition netloc_of :: "string \<Rightarrow> string option" where
  "netloc_of url = map_option netloc (urlparse url [])"


section \<open>A small site\<close>

text \<open>
  Concrete pages to run the crawler on. The seed page \<^verbatim>\<open>http://h/\<close> has a navigation
  bar with a link, a paragraph of two words, and links to \<^verbatim>\<open>/a\<close> (twice), \<^verbatim>\<open>/b\<close>,
  \<^verbatim>\<open>/doc.pdf?v=2\<close>, \<^verbatim>\<open>/img.png\<close> and another host. Page \<^verbatim>\<open>/a\<close> has a sentence and
  a link back to the seed, \<^verbatim>\<open>/b\<close> answers 404, and every other request fails.
  The sink is a string with room for a given number of characters; a write beyond it
  raises. The links are followed in the order of their insertion.
\<close>

definition anchor :: "string \<Rightarrow> node" where
  "anchor href = Element ''a'' (no_attrs\<lparr>href_attr := Some href\<rparr>) []"

definition seed_page :: soup where
  "seed_page =
     [Element ''nav'' no_attrs [anchor ''/n''],
      Element ''p'' no_attrs [Text ''Too short''],
      anchor ''/a'', anchor ''/b'', anchor ''/a'', anchor ''/doc.pdf?v=2'',
      anchor ''/img.png'', anchor ''http://other/x'']"

definition page_a :: soup where
  "page_a = [Element ''p'' no_attrs [Text ''This page has real content.''], anchor ''/'']"

definition site_get :: "string \<Rightarrow> (nat \<times> string) option" where
  "site_get url =
     (if url = ''http://h/'' then Some (200, ''seed'')
      else if url = ''http://h/a'' then Some (200, ''a'')
      else if url = ''http://h/b'' then Some (404, ''gone'')
      else None)"

definition site_parse :: "string \<Rightarrow> soup option" where
  "site_parse body =
     (if body = ''seed'' then Some seed_page
      else if body = ''a'' then Some page_a
      else None)"

definition bounded_write :: "nat \<Rightarrow> string \<Rightarrow> string \<Rightarrow> string option" where
  "bounded_write room f s = (if length f + length s \<le> room then Some (f @ s) else None)"

definition site_env :: "nat \<Rightarrow> string env" where
  "site_env room =
     \<lparr>http_get = site_get, html_parse = site_parse,
      open_file = (\<lambda>name. Some []), file_write = bounded_write room,
      set_order = (\<lambda>links. links),
      url_netloc = netloc_of, url_join = urljoin\<rparr>"

definition site_crawler :: crawler where
  "site_crawler = \<lparr>base_url = ''http://h/'', domain = ''h'', output_file = ''out.txt''\<rparr>"


text \<open>The invariant of a run: the URLs handed to \<^verbatim>\<open>requests.get\<close> so far are
  pairwise different and all in \<^verbatim>\<open>visited_urls\<close>.\<close>

definition fetched_once :: "'f state \<Rightarrow> bool" where
  "fetched_once st = (distinct (requests st) \<and> set (requests st) \<subseteq> visited_urls st)"

text \<open>The state in which a call of \<^verbatim>\<open>_crawl_url\<close> on a URL not yet visited leaves
  the run when its \<^verbatim>\<open>try\<close> block raised \<open>e\<close>: the URL is visited and was requested,
  the file is as the block left it, and the log has the line of the call and the line of
  the handler.\<close>

definition after_failure :: "'f state \<Rightarrow> string \<Rightarrow> 'f \<Rightarrow> error \<Rightarrow> 'f state" where
  "after_failure st url f e =
     st\<lparr>visited_urls := insert url (visited_urls st), sink := f,
        requests := requests st @ [url],
        log := log st @ [Info_crawling url, Error_processing url e]\<rparr>"

text \<open>
  The exception, if any, raised by the first three statements of the \<^verbatim>\<open>try\<close> block
  of \<^verbatim>\<open>_crawl_url\<close> after the pause: \<^verbatim>\<open>requests.get\<close> raises, or
  \<^verbatim>\<open>raise_for_status\<close> raises (status 400 to 599), or the parser raises.
\<close>

definition fetch_error :: "'f env \<Rightarrow> string \<Rightarrow> error option" where
  "fetch_error env url =
     (case http_get env url of
        None \<Rightarrow> Some Transport_error
      | Some (status, body) \<Rightarrow>
          if 400 \<le> status \<and> status < 600 then Some (Http_error status)
          else (case html_parse env body of None \<Rightarrow> Some Parse_error | Some sp \<Rightarrow> None))"

section \<open>Whitespace and lines\<close>

lemma is_space_newline: "is_space newline"
  by (simp add: is_space_def newline_def)

lemma split_ws_chars:
  "w \<in> set (split_ws cur s) \<Longrightarrow> c \<in> set w \<Longrightarrow> c \<in> set cur \<or> \<not> is_space c"
proof (induction cur s rule: split_ws.induct)
  case (1 cur)
  then show ?case by (simp split: if_splits)
next
  case (2 cur d cs)
  show ?case
  proof (cases "is_space d")
    case True
    with 2 show ?thesis by (cases "cur = []") auto
  next
    case False
    with 2 show ?thesis by auto
  qed
qed

lemma py_split_no_space: "w \<in> set (py_split s) \<Longrightarrow> c \<in> set w \<Longrightarrow> \<not> is_space c"
  using split_ws_chars [of w "[]" s c] by (simp add: py_split_def)

lemma join_chars: "c \<in> set (join sep xs) \<Longrightarrow> c \<in> set sep \<or> (\<exists>x \<in> set xs. c \<in> set x)"
  by (induction sep xs rule: join.induct) auto

lemma collapse_no_newline: "newline \<notin> set (join '' '' (py_split s))"
proof
  assume "newline \<in> set (join '' '' (py_split s))"
  then have "newline \<in> set '' '' \<or> (\<exists>x \<in> set (py_split s). newline \<in> set x)"
    by (rule join_chars)
  moreover have "newline \<notin> set '' ''" by (simp add: newline_def)
  ultimately obtain x where "x \<in> set (py_split s)" "newline \<in> set x" by blast
  then have "\<not> is_space newline" by (rule py_split_no_space)
  then show False by (simp add: is_space_newline)
qed

lemma split_sep_absent: "sep \<notin> set s \<Longrightarrow> split_sep sep cur s = [cur @ s]"
  by (induction sep cur s rule: split_sep.induct) auto

lemma py_split_on_absent: "sep \<notin> set s \<Longrightarrow> py_split_on sep s = [s]"
  by (simp add: py_split_on_def split_sep_absent)

lemma clean_text_one_line:
  "clean_text text =
     (if keep_line (join '' '' (py_split text)) then join '' '' (py_split text) else [])"
  by (simp add: clean_text_def Let_def py_split_on_absent [OF collapse_no_newline])

lemma clean_text_no_newline: "newline \<notin> set (clean_text text)"
  by (simp add: clean_text_one_line collapse_no_newline)

lemma region_text_no_newline: "newline \<notin> set (region_text sp)"
  by (simp add: region_text_def Let_def clean_text_no_newline)


section \<open>Removing subtrees\<close>

lemma decompose_where_twice:
  "decompose_where P (decompose_where Q ns) = decompose_where (\<lambda>t a. Q t a \<or> P t a) ns"
  by (induction Q ns rule: decompose_where.induct) auto

lemma strip_chrome_eq:
  "strip_chrome sp = decompose_where (\<lambda>t a. is_non_content t a \<or> is_navigation_element t a) sp"
  by (simp add: strip_chrome_def decompose_where_twice)

lemma strip_chrome_idem: "strip_chrome (strip_chrome sp) = strip_chrome sp"
  by (simp add: strip_chrome_eq decompose_where_twice)

lemma decompose_where_append:
  "decompose_where P (xs @ ys) = decompose_where P xs @ decompose_where P ys"
  by (induction P xs rule: decompose_where.induct) auto

lemma decompose_where_plug:
  "P t a \<Longrightarrow> decompose_where P (plug c [Element t a kids]) = decompose_where P (plug c [])"
  by (induction c) (simp_all add: decompose_where_append)

lemma strip_chrome_plug:
  assumes "is_navigation_element t a \<or> is_non_content t a"
  shows "strip_chrome (plug c [Element t a kids]) = strip_chrome (plug c [])"
  unfolding strip_chrome_eq using assms by (intro decompose_where_plug) auto

lemma find_all_decompose_where:
  "find_all P (decompose_where P ns) = []"
  by (induction P ns rule: decompose_where.induct) auto

lemma extract_text_plug:
  assumes "is_navigation_element t a \<or> is_non_content t a"
  shows "extract_text (plug c [Element t a kids]) = extract_text (plug c [])"
  by (simp add: extract_text_def Let_def strip_chrome_plug [OF assms])

section \<open>The classifier on the three signals\<close>

lemma lower_footer: "lower ''footer'' = ''footer''"
  by code_simp

lemma classified_nav: "is_navigation_element ''nav'' a"
  by (simp add: is_navigation_element_def nav_tags_def)

lemma classified_navbar:
  assumes "class_attr a = Some cl" "c \<in> set cl" "lower c = ''navbar''"
  shows "is_navigation_element t a"
proof -
  have "cl \<noteq> []" using assms by auto
  moreover have "''navbar'' \<in> set (map lower cl)" using assms by force
  ultimately show ?thesis using assms(1)
    by (simp add: is_navigation_element_def nav_classes_def)
qed

lemma classified_footer_id:
  assumes "id_attr a = Some i" "sublist ''footer'' i"
  shows "is_navigation_element t a"
proof -
  have "sublist (lower ''footer'') (lower i)"
    unfolding lower_def using assms(2) by (rule map_mono_sublist)
  then have "sublist ''footer'' (lower i)" by (simp only: lower_footer)
  then show ?thesis using assms(1)
    by (simp add: is_navigation_element_def nav_ids_def)
qed

section \<open>Links\<close>

lemma is_valid_url_visited:
  "is_valid_url env cr V u =
     (case is_valid_url env cr {} u of Inl e \<Rightarrow> Inl e | Inr ok \<Rightarrow> Inr (ok \<and> u \<notin> V))"
  by (auto simp: is_valid_url_def split: option.splits)

lemma filter_set_add:
  "filter (\<lambda>u. u \<notin> V) (set_add x xs) =
     (if x \<in> V then filter (\<lambda>u. u \<notin> V) xs else set_add x (filter (\<lambda>u. u \<notin> V) xs))"
  by (simp add: set_add_def)

lemma collect_links_visited:
  "collect_links env cr V cur as (filter (\<lambda>u. u \<notin> V) acc) =
     (case collect_links env cr {} cur as acc of
        Inl e \<Rightarrow> Inl e | Inr ls \<Rightarrow> Inr (filter (\<lambda>u. u \<notin> V) ls))"
proof (induction as arbitrary: acc)
  case Nil
  then show ?case by simp
next
  case (Cons link rest)
  show ?case
  proof (cases "href_of link")
    case None
    then show ?thesis using Cons.IH by simp
  next
    case (Some href)
    show ?thesis
    proof (cases "href = []")
      case True
      then show ?thesis using Some Cons.IH by simp
    next
      case False
      show ?thesis
      proof (cases "url_join env cur href")
        case None
        then show ?thesis using Some False by simp
      next
        case join: (Some absolute_url)
        show ?thesis
        proof (cases "is_valid_url env cr {} absolute_url")
          case (Inl e)
          then show ?thesis using Some False join
            by (simp add: is_valid_url_visited [of env cr V])
        next
          case (Inr ok)
          let ?acc' = "if ok then set_add absolute_url acc else acc"
          have eq: "filter (\<lambda>u. u \<notin> V) ?acc' =
              (if ok \<and> absolute_url \<notin> V then set_add absolute_url (filter (\<lambda>u. u \<notin> V) acc)
               else filter (\<lambda>u. u \<notin> V) acc)"
            by (simp add: filter_set_add)
          have "collect_links env cr V cur (link # rest) (filter (\<lambda>u. u \<notin> V) acc) =
              collect_links env cr V cur rest (filter (\<lambda>u. u \<notin> V) ?acc')"
            unfolding eq using Some False join Inr
            by (simp add: is_valid_url_visited [of env cr V])
          moreover have "collect_links env cr {} cur (link # rest) acc =
              collect_links env cr {} cur rest ?acc'"
            using Some False join Inr by simp
          ultimately show ?thesis using Cons.IH [of ?acc'] by simp
        qed
      qed
    qed
  qed
qed

lemma collect_links_valid:
  "collect_links env cr V cur as acc = Inr ls
     \<Longrightarrow> list_all (\<lambda>u. is_valid_url env cr V u = Inr True) acc
     \<Longrightarrow> list_all (\<lambda>u. is_valid_url env cr V u = Inr True) ls"
proof (induction as arbitrary: acc)
  case Nil
  then show ?case by simp
next
  case (Cons link rest)
  then show ?case
    by (auto simp: set_add_def split: option.splits if_splits sum.splits)
qed

lemma get_links_valid:
  assumes "get_links env cr V sp cur = Inr ls" "u \<in> set ls"
  shows "is_valid_url env cr V u = Inr True"
proof -
  have "list_all (\<lambda>u. is_valid_url env cr V u = Inr True) ls"
    using assms(1) collect_links_valid [of env cr V cur "find_all is_anchor sp" "[]" ls]
    by (simp add: get_links_def)
  then show ?thesis using assms(2) by (simp add: list_all_iff)
qed

section \<open>The run\<close>

lemma process_page_frame:
  "visited_urls (fst (process_page env cr url sp st)) = visited_urls st
   \<and> requests (fst (process_page env cr url sp st)) = requests st
   \<and> log (fst (process_page env cr url sp st)) = log st"
  by (simp add: process_page_def split: prod.splits option.splits)

lemma visit_page_frame:
  "visited_urls (fst (visit_page env cr url st)) = visited_urls st
   \<and> requests (fst (visit_page env cr url st)) = requests st @ [url]
   \<and> log (fst (visit_page env cr url st)) = log st"
  by (simp add: visit_page_def Let_def process_page_frame split: option.splits prod.splits)

lemma for_each_preserves:
  assumes "\<And>x s. I s \<Longrightarrow> I (fst (body x s))" "I s"
  shows "I (fst (for_each body xs s))"
  using assms(2)
proof (induction xs arbitrary: s)
  case Nil
  then show ?case by simp
next
  case (Cons x xs)
  obtain s' ok where b: "body x s = (s', ok)" by (cases "body x s")
  have "I s'" using assms(1) [OF Cons.prems, of x] b by simp
  then show ?case using b Cons.IH by simp
qed

lemma crawl_url_fetched_once:
  "fetched_once st \<Longrightarrow> fetched_once (fst (crawl_url env cr depth url st))"
proof (induction depth arbitrary: url st)
  case 0
  then show ?case by simp
next
  case (Suc depth)
  show ?case
  proof (cases "url \<in> visited_urls st")
    case True
    then show ?thesis using Suc.prems by simp
  next
    case False
    let ?st0 = "st\<lparr>visited_urls := insert url (visited_urls st), log := log st @ [Info_crawling url]\<rparr>"
    obtain st' r where v: "visit_page env cr url ?st0 = (st', r)"
      by (cases "visit_page env cr url ?st0")
    have fr: "visited_urls st' = insert url (visited_urls st)" "requests st' = requests st @ [url]"
      using visit_page_frame [of env cr url ?st0] v by simp_all
    have "url \<notin> set (requests st)" using False Suc.prems by (auto simp: fetched_once_def)
    then have once: "fetched_once st'"
      using Suc.prems fr by (auto simp: fetched_once_def)
    show ?thesis
    proof (cases r)
      case (Inl e)
      then show ?thesis using False v once by (simp add: fetched_once_def)
    next
      case (Inr links)
      have "fetched_once (fst (for_each (crawl_url env cr depth) (set_order env links) st'))"
        by (rule for_each_preserves [where I = fetched_once]) (rule Suc.IH, assumption, rule once)
      then show ?thesis using False v Inr by simp
    qed
  qed
qed

text \<open>
  The depth bound is no restriction on a finite site. Let \<open>U\<close> be a finite set of URLs
  that holds every link the crawler can collect on a page of \<open>U\<close>. Each nested call
  puts one more URL of \<open>U\<close> into \<^verbatim>\<open>visited_urls\<close>, so a call on a URL of \<open>U\<close>
  returns as soon as the depth allowed exceeds the number of URLs of \<open>U\<close> not yet
  visited, whatever fails on the way.
\<close>

lemma for_each_completes:
  assumes "\<And>x s. x \<in> set xs \<Longrightarrow> I s \<Longrightarrow> snd (body x s) \<and> I (fst (body x s))" "I s"
  shows "snd (for_each body xs s) \<and> I (fst (for_each body xs s))"
  using assms
proof (induction xs arbitrary: s)
  case Nil
  then show ?case by simp
next
  case (Cons x xs)
  obtain s' ok where b: "body x s = (s', ok)" by (cases "body x s")
  have "ok \<and> I s'" using Cons.prems(1) [of x s] Cons.prems(2) b by simp
  then show ?case using b Cons.IH [of s'] Cons.prems(1) by simp
qed

lemma crawl_url_completes:
  assumes fin: "finite U"
    and closed: "\<And>u st links. u \<in> U \<Longrightarrow> snd (visit_page env cr u st) = Inr links
                   \<Longrightarrow> set (set_order env links) \<subseteq> U"
  shows "url \<in> U \<Longrightarrow> card (U - visited_urls st) \<le> n
     \<Longrightarrow> snd (crawl_url env cr (Suc n) url st)
         \<and> visited_urls st \<subseteq> visited_urls (fst (crawl_url env cr (Suc n) url st))"
proof (induction n arbitrary: url st)
  case 0
  have "U - visited_urls st = {}" using 0(2) fin by simp
  then have "url \<in> visited_urls st" using 0(1) by blast
  then show ?case by simp
next
  case (Suc n)
  show ?case
  proof (cases "url \<in> visited_urls st")
    case True
    then show ?thesis by simp
  next
    case False
    let ?st0 = "st\<lparr>visited_urls := insert url (visited_urls st), log := log st @ [Info_crawling url]\<rparr>"
    obtain st' r where v: "visit_page env cr url ?st0 = (st', r)"
      by (cases "visit_page env cr url ?st0")
    have fr: "visited_urls st' = insert url (visited_urls st)"
      using visit_page_frame [of env cr url ?st0] v by simp
    have "U - visited_urls st' \<subset> U - visited_urls st"
      using False Suc.prems(1) fr by auto
    then have "card (U - visited_urls st') < card (U - visited_urls st)"
      using fin by (intro psubset_card_mono) auto
    then have small: "card (U - visited_urls st') \<le> n" using Suc.prems(2) by simp
    show ?thesis
    proof (cases r)
      case (Inl e)
      then show ?thesis using False v fr by auto
    next
      case (Inr links)
      have sub: "set (set_order env links) \<subseteq> U"
        using closed [of url ?st0 links] Suc.prems(1) v Inr by simp
      let ?I = "\<lambda>s. visited_urls st' \<subseteq> visited_urls s"
      have step: "snd (crawl_url env cr (Suc n) x s) \<and> ?I (fst (crawl_url env cr (Suc n) x s))"
        if "x \<in> set (set_order env links)" "?I s" for x s
      proof -
        have "U - visited_urls s \<subseteq> U - visited_urls st'" using that(2) by auto
        then have "card (U - visited_urls s) \<le> card (U - visited_urls st')"
          using fin by (intro card_mono) auto
        then have "card (U - visited_urls s) \<le> n" using small by simp
        moreover have "x \<in> U" using that(1) sub by auto
        ultimately show ?thesis using Suc.IH [of x s] that(2) by auto
      qed
      have "snd (for_each (crawl_url env cr (Suc n)) (set_order env links) st')
          \<and> ?I (fst (for_each (crawl_url env cr (Suc n)) (set_order env links) st'))"
        by (rule for_each_completes [where I = ?I]) (use step in auto)
      then show ?thesis using False v Inr fr by auto
    qed
  qed
qed

lemma crawl_completes:
  assumes "finite U" "base_url cr \<in> U" "open_file env (output_file cr) = Some f"
    and "\<And>u st links. u \<in> U \<Longrightarrow> snd (visit_page env cr u st) = Inr links
           \<Longrightarrow> set (set_order env links) \<subseteq> U"
  shows "\<exists>st. crawl env cr (Suc (card U)) = Inr (st, True)"
proof -
  have "snd (crawl_url env cr (Suc (card U)) (base_url cr) (initial_state f))
      \<and> visited_urls (initial_state f)
          \<subseteq> visited_urls (fst (crawl_url env cr (Suc (card U)) (base_url cr) (initial_state f)))"
  proof (rule crawl_url_completes [of U env cr])
    show "finite U" by fact
    show "set (set_order env links) \<subseteq> U"
      if "u \<in> U" "snd (visit_page env cr u st) = Inr links" for u st links
      using assms(4) that by blast
    show "base_url cr \<in> U" by fact
    show "card (U - visited_urls (initial_state f)) \<le> card U"
      using assms(1) by (intro card_mono) auto
  qed
  then have "snd (crawl_url env cr (Suc (card U)) (base_url cr) (initial_state f))" ..
  then show ?thesis using assms(3)
    by (cases "crawl_url env cr (Suc (card U)) (base_url cr) (initial_state f)")
      (simp add: crawl_def)
qed

text \<open>A page with a chrome element taken out: the crawler that is given the smaller
  tree for the same body runs exactly as before.\<close>

lemma is_valid_url_parse_update [simp]:
  "is_valid_url (env\<lparr>html_parse := p\<rparr>) cr V u = is_valid_url env cr V u"
  by (simp add: is_valid_url_def)

lemma collect_links_parse_update [simp]:
  "collect_links (env\<lparr>html_parse := p\<rparr>) cr V cur as acc = collect_links env cr V cur as acc"
  by (induction as arbitrary: acc) (simp_all split: option.splits sum.splits)

lemma save_text_parse_update [simp]:
  "save_text (env\<lparr>html_parse := p\<rparr>) url text f = save_text env url text f"
  by (simp add: save_text_def split: option.splits)

lemma get_links_parse_update [simp]:
  "get_links (env\<lparr>html_parse := p\<rparr>) cr V sp cur = get_links env cr V sp cur"
  by (simp add: get_links_def)

lemma process_page_parse_update [simp]:
  "process_page (env\<lparr>html_parse := p\<rparr>) cr url sp st = process_page env cr url sp st"
  by (simp add: process_page_def split: prod.splits option.splits)

lemma process_page_plug:
  assumes "is_navigation_element t a \<or> is_non_content t a"
  shows "process_page env cr url (plug c [Element t a kids]) st = process_page env cr url (plug c []) st"
  by (simp add: process_page_def extract_text_plug [OF assms])

lemma visit_page_plug:
  assumes "is_navigation_element t a \<or> is_non_content t a"
    and "html_parse env body = Some (plug c [Element t a kids])"
  shows "visit_page (env\<lparr>html_parse := (html_parse env)(body := Some (plug c []))\<rparr>) cr url st
         = visit_page env cr url st"
proof (cases "http_get env url")
  case None
  then show ?thesis by (simp add: visit_page_def)
next
  case (Some r)
  obtain status b where r: "r = (status, b)" by (cases r)
  show ?thesis
  proof (cases "b = body")
    case True
    then show ?thesis
      using Some r assms(2) process_page_plug [OF assms(1), of env cr url c kids]
      by (simp add: visit_page_def Let_def)
  next
    case False
    then show ?thesis
      using Some r by (simp add: visit_page_def Let_def split: option.splits)
  qed
qed

lemma crawl_url_plug:
  assumes "is_navigation_element t a \<or> is_non_content t a"
    and "html_parse env body = Some (plug c [Element t a kids])"
  shows "crawl_url (env\<lparr>html_parse := (html_parse env)(body := Some (plug c []))\<rparr>) cr depth
         = crawl_url env cr depth"
proof (induction depth)
  case 0
  then show ?case by simp
next
  case (Suc depth)
  let ?env' = "env\<lparr>html_parse := (html_parse env)(body := Some (plug c []))\<rparr>"
  have "crawl_url ?env' cr (Suc depth) url st = crawl_url env cr (Suc depth) url st" for url st
  proof (cases "url \<in> visited_urls st")
    case True
    then show ?thesis by simp
  next
    case False
    let ?st0 = "st\<lparr>visited_urls := insert url (visited_urls st), log := log st @ [Info_crawling url]\<rparr>"
    obtain st' r where v: "visit_page env cr url ?st0 = (st', r)"
      by (cases "visit_page env cr url ?st0")
    then have v': "visit_page ?env' cr url ?st0 = (st', r)"
      using visit_page_plug [OF assms, of cr url ?st0] by simp
    show ?thesis using False v v' by (cases r) (simp_all add: Suc.IH)
  qed
  then show ?case by (intro ext)
qed

text \<open>
  What a call of \<^verbatim>\<open>_crawl_url\<close> leaves behind. The visited set, the requests and the
  log only grow. A call that returns has its URL in \<^verbatim>\<open>visited_urls\<close>, and so has a
  loop that returns for each of its URLs. A URL that enters \<^verbatim>\<open>visited_urls\<close> is
  requested. A requested URL whose fetch fails has its failure in the log.
\<close>

lemma visit_page_fetch_error:
  "fetch_error env url = Some e
     \<Longrightarrow> visit_page env cr url s = (s\<lparr>requests := requests s @ [url]\<rparr>, Inl e)"
  by (auto simp: fetch_error_def visit_page_def Let_def split: option.splits prod.splits if_splits)

lemma crawl_url_fetch_error:
  "url \<notin> visited_urls st \<Longrightarrow> fetch_error env url = Some e
     \<Longrightarrow> crawl_url env cr (Suc depth) url st = (after_failure st url (sink st) e, True)"
  by (simp add: visit_page_fetch_error after_failure_def)

lemma visit_page_links:
  assumes "visit_page env cr url s = (s', Inr links)" "u \<in> set links"
  shows "u \<notin> visited_urls s"
proof -
  obtain sp where "get_links env cr (visited_urls s) sp url = Inr links"
    using assms(1)
    by (auto simp: visit_page_def process_page_def Let_def
        split: option.splits prod.splits if_splits)
  then have "is_valid_url env cr (visited_urls s) u = Inr True"
    using assms(2) by (rule get_links_valid)
  then show ?thesis by (auto simp: is_valid_url_def split: option.splits)
qed

lemma crawl_url_grows:
  "visited_urls st \<subseteq> visited_urls (fst (crawl_url env cr depth url st))
   \<and> set (requests st) \<subseteq> set (requests (fst (crawl_url env cr depth url st)))
   \<and> set (log st) \<subseteq> set (log (fst (crawl_url env cr depth url st)))"
proof (induction depth arbitrary: url st)
  case 0
  show ?case by simp
next
  case (Suc depth)
  show ?case
  proof (cases "url \<in> visited_urls st")
    case True
    then show ?thesis by simp
  next
    case False
    let ?st0 = "st\<lparr>visited_urls := insert url (visited_urls st), log := log st @ [Info_crawling url]\<rparr>"
    obtain st' r where v: "visit_page env cr url ?st0 = (st', r)"
      by (cases "visit_page env cr url ?st0")
    have fr: "visited_urls st' = insert url (visited_urls st)" "requests st' = requests st @ [url]"
      "log st' = log st @ [Info_crawling url]"
      using visit_page_frame [of env cr url ?st0] v by simp_all
    show ?thesis
    proof (cases r)
      case (Inl e)
      then show ?thesis using False v fr by auto
    next
      case (Inr links)
      let ?I = "\<lambda>s. visited_urls st \<subseteq> visited_urls s \<and> set (requests st) \<subseteq> set (requests s)
                  \<and> set (log st) \<subseteq> set (log s)"
      have "?I (fst (for_each (crawl_url env cr depth) (set_order env links) st'))"
      proof (rule for_each_preserves [where I = ?I])
        show "?I (fst (crawl_url env cr depth x s))" if "?I s" for x s
          using that Suc.IH [of s x] by blast
        show "?I st'" using fr by auto
      qed
      then show ?thesis using False v Inr by simp
    qed
  qed
qed

lemma for_each_grows:
  "visited_urls s \<subseteq> visited_urls (fst (for_each (crawl_url env cr depth) xs s))"
proof (rule for_each_preserves [where I = "\<lambda>t. visited_urls s \<subseteq> visited_urls t"])
  show "visited_urls s \<subseteq> visited_urls (fst (crawl_url env cr depth x t))"
    if "visited_urls s \<subseteq> visited_urls t" for x t
    using that crawl_url_grows [of t env cr depth x] by blast
  show "visited_urls s \<subseteq> visited_urls s" by simp
qed

lemma crawl_url_visits:
  "snd (crawl_url env cr depth url st) \<Longrightarrow> url \<in> visited_urls (fst (crawl_url env cr depth url st))"
proof (cases depth)
  case 0
  assume "snd (crawl_url env cr depth url st)"
  then show ?thesis using 0 by simp
next
  case (Suc d)
  show ?thesis
  proof (cases "url \<in> visited_urls st")
    case True
    then show ?thesis using Suc by simp
  next
    case False
    let ?st0 = "st\<lparr>visited_urls := insert url (visited_urls st), log := log st @ [Info_crawling url]\<rparr>"
    obtain st' r where v: "visit_page env cr url ?st0 = (st', r)"
      by (cases "visit_page env cr url ?st0")
    have fr: "visited_urls st' = insert url (visited_urls st)"
      using visit_page_frame [of env cr url ?st0] v by simp
    show ?thesis
    proof (cases r)
      case (Inl e)
      then show ?thesis using False v fr Suc by simp
    next
      case (Inr links)
      have "url \<in> visited_urls (fst (for_each (crawl_url env cr d) (set_order env links) st'))"
        using for_each_grows [of st' env cr d "set_order env links"] fr by auto
      then show ?thesis using False v Inr Suc by simp
    qed
  qed
qed

lemma for_each_visits:
  "snd (for_each (crawl_url env cr depth) xs s)
     \<Longrightarrow> set xs \<subseteq> visited_urls (fst (for_each (crawl_url env cr depth) xs s))"
proof (induction xs arbitrary: s)
  case Nil
  then show ?case by simp
next
  case (Cons x xs)
  obtain s' ok where b: "crawl_url env cr depth x s = (s', ok)"
    by (cases "crawl_url env cr depth x s")
  have ok: "ok" using Cons.prems b by (cases ok) simp_all
  then have rest: "snd (for_each (crawl_url env cr depth) xs s')" using Cons.prems b by simp
  have "x \<in> visited_urls s'" using crawl_url_visits [of env cr depth x s] b ok by simp
  then have "x \<in> visited_urls (fst (for_each (crawl_url env cr depth) xs s'))"
    using for_each_grows [of s' env cr depth xs] by auto
  then show ?case using Cons.IH [OF rest] b ok by simp
qed

lemma crawl_url_requested:
  "visited_urls st \<subseteq> V0 \<union> set (requests st)
     \<Longrightarrow> visited_urls (fst (crawl_url env cr depth url st))
           \<subseteq> V0 \<union> set (requests (fst (crawl_url env cr depth url st)))"
proof (induction depth arbitrary: url st)
  case 0
  then show ?case by simp
next
  case (Suc depth)
  show ?case
  proof (cases "url \<in> visited_urls st")
    case True
    then show ?thesis using Suc.prems by simp
  next
    case False
    let ?st0 = "st\<lparr>visited_urls := insert url (visited_urls st), log := log st @ [Info_crawling url]\<rparr>"
    obtain st' r where v: "visit_page env cr url ?st0 = (st', r)"
      by (cases "visit_page env cr url ?st0")
    have fr: "visited_urls st' = insert url (visited_urls st)" "requests st' = requests st @ [url]"
      using visit_page_frame [of env cr url ?st0] v by simp_all
    have k: "visited_urls st' \<subseteq> V0 \<union> set (requests st')" using Suc.prems fr by auto
    show ?thesis
    proof (cases r)
      case (Inl e)
      then show ?thesis using False v k by simp
    next
      case (Inr links)
      let ?K = "\<lambda>s. visited_urls s \<subseteq> V0 \<union> set (requests s)"
      have "?K (fst (for_each (crawl_url env cr depth) (set_order env links) st'))"
        by (rule for_each_preserves [where I = ?K]) (rule Suc.IH, assumption, rule k)
      then show ?thesis using False v Inr by simp
    qed
  qed
qed

lemma crawl_url_failures_logged:
  "(\<forall>u e. u \<in> set (requests st) \<and> u \<notin> R \<and> fetch_error env u = Some e
        \<longrightarrow> Error_processing u e \<in> set (log st))
   \<Longrightarrow> (\<forall>u e. u \<in> set (requests (fst (crawl_url env cr depth url st))) \<and> u \<notin> R
          \<and> fetch_error env u = Some e
        \<longrightarrow> Error_processing u e \<in> set (log (fst (crawl_url env cr depth url st))))"
proof (induction depth arbitrary: url st)
  case 0
  then show ?case by simp
next
  case (Suc depth)
  let ?J = "\<lambda>s. \<forall>u e. u \<in> set (requests s) \<and> u \<notin> R \<and> fetch_error env u = Some e
        \<longrightarrow> Error_processing u e \<in> set (log s)"
  show ?case
  proof (cases "url \<in> visited_urls st")
    case True
    then show ?thesis using Suc.prems by simp
  next
    case False
    let ?st0 = "st\<lparr>visited_urls := insert url (visited_urls st), log := log st @ [Info_crawling url]\<rparr>"
    obtain st' r where v: "visit_page env cr url ?st0 = (st', r)"
      by (cases "visit_page env cr url ?st0")
    have fr: "requests st' = requests st @ [url]" "log st' = log st @ [Info_crawling url]"
      using visit_page_frame [of env cr url ?st0] v by simp_all
    show ?thesis
    proof (cases "fetch_error env url")
      case (Some e)
      then have "r = Inl e" using v visit_page_fetch_error [of env url e cr ?st0] by simp
      then have res: "crawl_url env cr (Suc depth) url st = (st'\<lparr>log := log st' @ [Error_processing url e]\<rparr>, True)"
        using False v by simp
      show ?thesis unfolding res using Suc.prems fr Some by auto
    next
      case None
      have j: "?J st'" using Suc.prems fr None by auto
      show ?thesis
      proof (cases r)
        case (Inl e)
        then show ?thesis using False v j by auto
      next
        case (Inr links)
        have "?J (fst (for_each (crawl_url env cr depth) (set_order env links) st'))"
          by (rule for_each_preserves [where I = ?J]) (rule Suc.IH, assumption, rule j)
        then show ?thesis using False v Inr by simp
      qed
    qed
  qed
qed

section \<open>The claims\<close>

text \<open>
  C1. In a run every URL is handed to \<^verbatim>\<open>requests.get\<close> at most once. A call of
  \<^verbatim>\<open>_crawl_url\<close> on a URL that is already in \<^verbatim>\<open>visited_urls\<close> returns at once and
  changes nothing; a call on any other URL puts it into \<^verbatim>\<open>visited_urls\<close> before the
  request. So a state in which the requested URLs are pairwise different and all visited
  stays such a state through any call, at every depth and also when the depth runs out,
  and the requests of a whole run from the seed are pairwise different.
\<close>

theorem url_fetched_at_most_once:
  "(url \<in> visited_urls st \<longrightarrow> crawl_url env cr (Suc depth) url st = (st, True))
   \<and> (fetched_once st \<longrightarrow> fetched_once (fst (crawl_url env cr depth url st)))
   \<and> (crawl env cr depth = Inr (st', ok) \<longrightarrow> distinct (requests st') \<and> set (requests st') \<subseteq> visited_urls st')"
proof -
  have "fetched_once st'" if c: "crawl env cr depth = Inr (st', ok)"
  proof -
    obtain f where f: "open_file env (output_file cr) = Some f"
      using c by (auto simp: crawl_def split: option.splits)
    have "fetched_once (initial_state f :: 'a state)"
      by (simp add: fetched_once_def initial_state_def)
    then have "fetched_once (fst (crawl_url env cr depth (base_url cr) (initial_state f)))"
      by (rule crawl_url_fetched_once)
    then show ?thesis using c f
      by (auto simp: crawl_def fetched_once_def split: prod.splits if_splits)
  qed
  then show ?thesis
    using crawl_url_fetched_once [of st env cr depth url] by (auto simp: fetched_once_def)
qed

theorem url_fetched_at_most_once_witness:
  "crawl_url (site_env 1000) site_crawler (Suc 0) ''http://h/''
      ((initial_state [])\<lparr>visited_urls := {''http://h/''}\<rparr>)
     = ((initial_state [])\<lparr>visited_urls := {''http://h/''}\<rparr>, True)
   \<and> fetched_once (fst (crawl_url (site_env 1000) site_crawler 5 ''http://h/'' (initial_state [])))
   \<and> requests (fst (crawl_url (site_env 1000) site_crawler 5 ''http://h/'' (initial_state [])))
       = [''http://h/'', ''http://h/a'', ''http://h/b'', ''http://h/doc.pdf?v=2'']"
proof -
  have a: "''http://h/'' \<in> visited_urls ((initial_state [] :: string state)\<lparr>visited_urls := {''http://h/''}\<rparr>)"
    by simp
  have b: "fetched_once (initial_state [] :: string state)"
    by (simp add: fetched_once_def initial_state_def)
  have c: "requests (fst (crawl_url (site_env 1000) site_crawler 5 ''http://h/'' (initial_state [])))
       = [''http://h/'', ''http://h/a'', ''http://h/b'', ''http://h/doc.pdf?v=2'']"
    by code_simp
  show ?thesis
    using url_fetched_at_most_once [where url = "''http://h/''"
        and st = "(initial_state [] :: string state)\<lparr>visited_urls := {''http://h/''}\<rparr>"
        and env = "site_env 1000" and cr = site_crawler and depth = 0]
      url_fetched_at_most_once [where url = "''http://h/''"
        and st = "initial_state [] :: string state"
        and env = "site_env 1000" and cr = site_crawler and depth = 5]
      a b c
    by blast
qed


text \<open>
  C3. An element named \<^verbatim>\<open>nav\<close>, or with a class token that is ``navbar'' in lower
  case, or with an id that contains ``footer'', is classified as navigation, and the
  text extracted from a page with such an element, at any place in the tree and with
  any contents, is the text extracted from the page without the element. The page
  \<^verbatim>\<open><nav>Home About</nav><p>Four token line here now</p>\<close> gives the text of the
  paragraph.
\<close>

theorem chrome_never_extracted:
  assumes "t = ''nav''
           \<or> (\<exists>cl c. class_attr a = Some cl \<and> c \<in> set cl \<and> lower c = ''navbar'')
           \<or> (\<exists>i. id_attr a = Some i \<and> sublist ''footer'' i)"
  shows "is_navigation_element t a
    \<and> fst (extract_text (plug c [Element t a kids])) = fst (extract_text (plug c []))
    \<and> fst (extract_text [Element ''nav'' no_attrs [Text ''Home About''],
                          Element ''p'' no_attrs [Text ''Four token line here now'']])
        = ''Four token line here now''"
proof -
  have nav: "is_navigation_element t a"
    using assms classified_nav classified_navbar classified_footer_id by blast
  have "fst (extract_text [Element ''nav'' no_attrs [Text ''Home About''],
                          Element ''p'' no_attrs [Text ''Four token line here now'']])
        = ''Four token line here now''"
    by code_simp
  with nav show ?thesis
    by (simp add: extract_text_plug)
qed

theorem chrome_never_extracted_witness:
  "is_navigation_element ''div'' (no_attrs\<lparr>class_attr := Some [''top'', ''NavBar'']\<rparr>)
   \<and> fst (extract_text [Element ''div'' (no_attrs\<lparr>class_attr := Some [''top'', ''NavBar'']\<rparr>)
                          [Text ''one two three four five''],
                        Element ''p'' no_attrs [Text ''six seven eight nine'']])
      = ''six seven eight nine''"
proof -
  let ?a = "no_attrs\<lparr>class_attr := Some [''top'', ''NavBar'']\<rparr>"
  have "lower ''NavBar'' = ''navbar''" by code_simp
  then have "class_attr ?a = Some [''top'', ''NavBar'']
      \<and> ''NavBar'' \<in> set [''top'', ''NavBar''] \<and> lower ''NavBar'' = ''navbar''"
    by simp
  then have h: "''div'' = ''nav''
      \<or> (\<exists>cl c. class_attr ?a = Some cl \<and> c \<in> set cl \<and> lower c = ''navbar'')
      \<or> (\<exists>i. id_attr ?a = Some i \<and> sublist ''footer'' i)"
    by blast
  have e: "fst (extract_text [Element ''p'' no_attrs [Text ''six seven eight nine'']])
      = ''six seven eight nine''"
    by code_simp
  show ?thesis
    using chrome_never_extracted [OF h,
        of "Hole [] [Element ''p'' no_attrs [Text ''six seven eight nine'']]"
        "[Text ''one two three four five'']"] e
    by simp
qed

text \<open>
  C4 as stated does not hold: \<^verbatim>\<open>get_links\<close> asks \<^verbatim>\<open>is_valid_url\<close>, which reads
  \<^verbatim>\<open>visited_urls\<close>. On the same tree, base URL and domain, the link to \<^verbatim>\<open>/a\<close> is
  returned when nothing is visited and is not returned when \<^verbatim>\<open>http://h/a\<close> is.
\<close>

theorem get_links_visited_counterexample:
  "get_links (site_env 0) site_crawler {} [anchor ''/a'', anchor ''/b''] ''http://h/''
     = Inr [''http://h/a'', ''http://h/b'']
   \<and> get_links (site_env 0) site_crawler {''http://h/a''} [anchor ''/a'', anchor ''/b''] ''http://h/''
     = Inr [''http://h/b'']
   \<and> set [''http://h/a'', ''http://h/b''] \<noteq> set [''http://h/b'']"
proof -
  have "get_links (site_env 0) site_crawler {} [anchor ''/a'', anchor ''/b''] ''http://h/''
     = Inr [''http://h/a'', ''http://h/b'']"
    by code_simp
  moreover have "get_links (site_env 0) site_crawler {''http://h/a''} [anchor ''/a'', anchor ''/b''] ''http://h/''
     = Inr [''http://h/b'']"
    by code_simp
  ultimately show ?thesis by simp
qed

text \<open>
  C4, amended. \<^verbatim>\<open>get_links\<close> changes no state and is a function of the tree, the base
  URL, the domain and \<^verbatim>\<open>visited_urls\<close>: it raises exactly when it raises with nothing
  visited, and otherwise returns the links it returns with nothing visited, without
  those that are in \<^verbatim>\<open>visited_urls\<close>.
\<close>

theorem get_links_minus_visited:
  "get_links env cr V sp cur =
     (case get_links env cr {} sp cur of
        Inl e \<Rightarrow> Inl e | Inr ls \<Rightarrow> Inr (filter (\<lambda>u. u \<notin> V) ls))"
  using collect_links_visited [of env cr V cur "find_all is_anchor sp" "[]"]
  by (simp add: get_links_def)

theorem get_links_minus_visited_witness:
  "get_links (site_env 0) site_crawler {''http://h/b''} seed_page ''http://h/''
     = Inr [''http://h/n'', ''http://h/a'', ''http://h/doc.pdf?v=2'']"
proof -
  have "get_links (site_env 0) site_crawler {} seed_page ''http://h/''
     = Inr [''http://h/n'', ''http://h/a'', ''http://h/b'', ''http://h/doc.pdf?v=2'']"
    by code_simp
  then show ?thesis
    using get_links_minus_visited [of "site_env 0" site_crawler "{''http://h/b''}" seed_page "''http://h/''"]
    by simp
qed

text \<open>
  C5 as stated does not hold: the extension is looked for at the end of the whole URL
  string. The link \<^verbatim>\<open>/doc.pdf?v=2\<close> is returned although its path \<^verbatim>\<open>/doc.pdf\<close> ends in
  \<^verbatim>\<open>.pdf\<close>, and the link \<^verbatim>\<open>/x?f=a.pdf\<close> is left out although its path is \<^verbatim>\<open>/x\<close>.
\<close>

theorem asset_suffix_counterexample:
  "get_links (site_env 0) site_crawler {} [anchor ''/doc.pdf?v=2'', anchor ''/x?f=a.pdf''] ''http://h/''
     = Inr [''http://h/doc.pdf?v=2'']
   \<and> map_option netloc (urlparse ''http://h/doc.pdf?v=2'' []) = Some (domain site_crawler)
   \<and> map_option path (urlparse ''http://h/doc.pdf?v=2'' []) = Some ''/doc.pdf''
   \<and> suffix ''.pdf'' ''/doc.pdf''
   \<and> urljoin ''http://h/'' ''/x?f=a.pdf'' = Some ''http://h/x?f=a.pdf''
   \<and> map_option path (urlparse ''http://h/x?f=a.pdf'' []) = Some ''/x''"
proof -
  have "get_links (site_env 0) site_crawler {} [anchor ''/doc.pdf?v=2'', anchor ''/x?f=a.pdf''] ''http://h/''
     = Inr [''http://h/doc.pdf?v=2'']"
    by code_simp
  moreover have "map_option netloc (urlparse ''http://h/doc.pdf?v=2'' []) = Some (domain site_crawler)"
    by code_simp
  moreover have "map_option path (urlparse ''http://h/doc.pdf?v=2'' []) = Some ''/doc.pdf''"
    by code_simp
  moreover have "suffix ''.pdf'' ''/doc.pdf''"
    by code_simp
  moreover have "urljoin ''http://h/'' ''/x?f=a.pdf'' = Some ''http://h/x?f=a.pdf''"
    by code_simp
  moreover have "map_option path (urlparse ''http://h/x?f=a.pdf'' []) = Some ''/x''"
    by code_simp
  ultimately show ?thesis by blast
qed

text \<open>
  C5, amended. Every URL returned by \<^verbatim>\<open>get_links\<close> has the netloc of the seed URL,
  is not in \<^verbatim>\<open>visited_urls\<close>, and does not end, as a whole string with its query and
  fragment, in \<^verbatim>\<open>.pdf\<close>, \<^verbatim>\<open>.jpg\<close>, \<^verbatim>\<open>.png\<close> or \<^verbatim>\<open>.gif\<close>; the comparison is exact in
  the case of the letters.
\<close>

theorem links_same_netloc_no_asset_suffix:
  assumes "new_crawler env seed out = Inr cr"
    and "get_links env cr V sp cur = Inr ls"
    and "u \<in> set ls"
  shows "url_netloc env u = url_netloc env seed \<and> url_netloc env u = Some (domain cr)
    \<and> \<not> suffix ''.pdf'' u \<and> \<not> suffix ''.jpg'' u \<and> \<not> suffix ''.png'' u \<and> \<not> suffix ''.gif'' u
    \<and> u \<notin> V"
proof -
  have "url_netloc env seed = Some (domain cr)"
    using assms(1) by (auto simp: new_crawler_def split: option.splits)
  moreover have "is_valid_url env cr V u = Inr True"
    using assms(2,3) by (rule get_links_valid)
  ultimately show ?thesis
    by (auto simp: is_valid_url_def asset_extensions_def split: option.splits)
qed

theorem links_same_netloc_no_asset_suffix_witness:
  "netloc_of ''http://h/a'' = netloc_of ''http://h/''
   \<and> netloc_of ''http://h/a'' = Some ''h''
   \<and> \<not> suffix ''.pdf'' ''http://h/a'' \<and> \<not> suffix ''.png'' ''http://h/a''
   \<and> ''http://h/a'' \<notin> {''http://h/b''}"
proof -
  have c: "new_crawler (site_env 0) ''http://h/'' ''out.txt'' = Inr site_crawler"
    by code_simp
  have l: "get_links (site_env 0) site_crawler {''http://h/b''} seed_page ''http://h/''
     = Inr [''http://h/n'', ''http://h/a'', ''http://h/doc.pdf?v=2'']"
    by code_simp
  have m: "''http://h/a'' \<in> set [''http://h/n'', ''http://h/a'', ''http://h/doc.pdf?v=2'']"
    by simp
  show ?thesis
    using links_same_netloc_no_asset_suffix [OF c l m]
    by (auto simp: site_env_def site_crawler_def)
qed

text \<open>
  C6 as stated does not hold: a write that raises is caught by the handler of
  \<^verbatim>\<open>_crawl_url\<close> like any other exception. With a sink that takes nothing, the write
  for \<^verbatim>\<open>http://h/a\<close> fails and is logged, and the run goes on to request
  \<^verbatim>\<open>http://h/b\<close> and \<^verbatim>\<open>http://h/doc.pdf?v=2\<close> and ends with the summary.
\<close>

theorem write_failure_counterexample:
  "crawl (site_env 0) site_crawler 5 =
     Inr (\<lparr>visited_urls = {''http://h/'', ''http://h/a'', ''http://h/b'', ''http://h/doc.pdf?v=2''},
           sink = [],
           requests = [''http://h/'', ''http://h/a'', ''http://h/b'', ''http://h/doc.pdf?v=2''],
           log = [Info_crawling ''http://h/'',
                  Info_crawling ''http://h/a'',
                  Error_processing ''http://h/a'' Sink_error,
                  Info_crawling ''http://h/b'',
                  Error_processing ''http://h/b'' (Http_error 404),
                  Info_crawling ''http://h/doc.pdf?v=2'',
                  Error_processing ''http://h/doc.pdf?v=2'' Transport_error,
                  Info_completed 4]\<rparr>, True)"
  by code_simp

text \<open>
  C6, amended. A failure of a write to the output file while a URL is processed is a
  failure of that URL only: the call of \<^verbatim>\<open>_crawl_url\<close> logs it and returns, the links
  of that page are not followed, and the loop that made the call goes on with the
  remaining URLs.
\<close>

theorem write_failure_is_per_url:
  assumes "url \<notin> visited_urls st"
    and "http_get env url = Some (status, body)"
    and "\<not> (400 \<le> status \<and> status < 600)"
    and "html_parse env body = Some sp"
    and "save_text env url (fst (extract_text sp)) (sink st) = (f, Some e)"
  shows "e = Sink_error
    \<and> crawl_url env cr (Suc depth) url st = (after_failure st url f e, True)
    \<and> for_each (crawl_url env cr (Suc depth)) (url # rest) st
        = for_each (crawl_url env cr (Suc depth)) rest (after_failure st url f e)"
proof -
  have e: "e = Sink_error"
    using assms(5) by (auto simp: save_text_def split: if_splits option.splits)
  have "crawl_url env cr (Suc depth) url st = (after_failure st url f e, True)"
    using assms
    by (cases "extract_text sp")
      (auto simp: visit_page_def process_page_def after_failure_def Let_def)
  then show ?thesis using e by simp
qed

theorem write_failure_is_per_url_witness:
  "crawl_url (site_env 0) site_crawler (Suc 0) ''http://h/a'' (initial_state [])
     = (after_failure (initial_state []) ''http://h/a'' [] Sink_error, True)
   \<and> for_each (crawl_url (site_env 0) site_crawler (Suc 0)) [''http://h/a'', ''http://h/b''] (initial_state [])
     = for_each (crawl_url (site_env 0) site_crawler (Suc 0)) [''http://h/b'']
         (after_failure (initial_state []) ''http://h/a'' [] Sink_error)"
proof -
  have a: "''http://h/a'' \<notin> visited_urls (initial_state [] :: string state)"
    by (simp add: initial_state_def)
  have b: "http_get (site_env 0) ''http://h/a'' = Some (200, ''a'')"
    by (simp add: site_env_def site_get_def)
  have c: "\<not> (400 \<le> (200 :: nat) \<and> (200 :: nat) < 600)"
    by simp
  have d: "html_parse (site_env 0) ''a'' = Some page_a"
    by (simp add: site_env_def site_parse_def)
  have s: "save_text (site_env 0) ''http://h/a'' (fst (extract_text page_a)) (sink (initial_state []))
      = ([], Some Sink_error)"
    by code_simp
  show ?thesis
    using write_failure_is_per_url [OF a b c d s, of site_crawler 0 "[''http://h/b'']"]
    by simp
qed

text \<open>
  C7 as stated does not hold for every status that is not a success: \<^verbatim>\<open>raise_for_status\<close>
  raises for the statuses 400 to 599 only. When every request is answered with status
  304 and the body of page \<^verbatim>\<open>/a\<close>, no failure is logged, and the text of the page is
  written for both URLs requested.
\<close>

theorem non_success_status_counterexample:
  "fetch_error ((site_env 1000)\<lparr>http_get := (\<lambda>url. Some (304, ''a''))\<rparr>) ''http://h/a'' = None
   \<and> crawl_url ((site_env 1000)\<lparr>http_get := (\<lambda>url. Some (304, ''a''))\<rparr>) site_crawler 2
        ''http://h/a'' (initial_state [])
     = (\<lparr>visited_urls = {''http://h/a'', ''http://h/''},
         sink = content_header ''http://h/a'' @ ''This page has real content.''
                @ content_header ''http://h/'' @ ''This page has real content.'',
         requests = [''http://h/a'', ''http://h/''],
         log = [Info_crawling ''http://h/a'', Info_crawling ''http://h/'']\<rparr>, True)"
proof -
  have "fetch_error ((site_env 1000)\<lparr>http_get := (\<lambda>url. Some (304, ''a''))\<rparr>) ''http://h/a'' = None"
    by code_simp
  moreover have "crawl_url ((site_env 1000)\<lparr>http_get := (\<lambda>url. Some (304, ''a''))\<rparr>) site_crawler 2
        ''http://h/a'' (initial_state [])
     = (\<lparr>visited_urls = {''http://h/a'', ''http://h/''},
         sink = content_header ''http://h/a'' @ ''This page has real content.''
                @ content_header ''http://h/'' @ ''This page has real content.'',
         requests = [''http://h/a'', ''http://h/''],
         log = [Info_crawling ''http://h/a'', Info_crawling ''http://h/'']\<rparr>, True)"
    by code_simp
  ultimately show ?thesis by blast
qed

text \<open>
  C7, amended. When the request for a URL raises, or the status is one for which
  \<^verbatim>\<open>raise_for_status\<close> raises (400 to 599), or the body does not parse, the call of
  \<^verbatim>\<open>_crawl_url\<close> on that URL logs the failure and returns normally, so nothing is
  raised to its caller. Such a failure of a link \<open>u\<close> of a page \<open>p\<close> does not keep the
  other links of \<open>p\<close> from being processed: when the call on \<open>p\<close> returns, where \<open>p\<close>
  was not visited before and the loop goes through exactly the links collected, the
  failure of \<open>u\<close> is in the log and \<open>u\<close> and every other link \<open>v\<close> of \<open>p\<close> have been
  requested.
\<close>

theorem fetch_failure_isolated:
  "(url \<notin> visited_urls s \<and> fetch_error env url = Some e
      \<longrightarrow> crawl_url env cr (Suc d) url s = (after_failure s url (sink s) e, True))
   \<and> (p \<notin> visited_urls st \<and> set (requests st) \<subseteq> visited_urls st
       \<and> visit_page env cr p (st\<lparr>visited_urls := insert p (visited_urls st),
                                    log := log st @ [Info_crawling p]\<rparr>) = (st', Inr links)
       \<and> set (set_order env links) = set links
       \<and> snd (crawl_url env cr (Suc depth) p st)
       \<and> u \<in> set links \<and> fetch_error env u = Some e' \<and> v \<in> set links
      \<longrightarrow> Error_processing u e' \<in> set (log (fst (crawl_url env cr (Suc depth) p st)))
          \<and> u \<in> set (requests (fst (crawl_url env cr (Suc depth) p st)))
          \<and> v \<in> set (requests (fst (crawl_url env cr (Suc depth) p st))))"
proof -
  have second: "Error_processing u e' \<in> set (log (fst (crawl_url env cr (Suc depth) p st)))
          \<and> u \<in> set (requests (fst (crawl_url env cr (Suc depth) p st)))
          \<and> v \<in> set (requests (fst (crawl_url env cr (Suc depth) p st)))"
    if p: "p \<notin> visited_urls st" and once: "set (requests st) \<subseteq> visited_urls st"
      and vp: "visit_page env cr p (st\<lparr>visited_urls := insert p (visited_urls st),
                                    log := log st @ [Info_crawling p]\<rparr>) = (st', Inr links)"
      and ord: "set (set_order env links) = set links"
      and fin: "snd (crawl_url env cr (Suc depth) p st)"
      and u: "u \<in> set links" and fu: "fetch_error env u = Some e'" and v: "v \<in> set links"
  proof -
    let ?st0 = "st\<lparr>visited_urls := insert p (visited_urls st), log := log st @ [Info_crawling p]\<rparr>"
    let ?loop = "for_each (crawl_url env cr depth) (set_order env links) st'"
    have res: "crawl_url env cr (Suc depth) p st = ?loop" using p vp by simp
    have fr: "visited_urls st' = insert p (visited_urls st)" "requests st' = requests st @ [p]"
      using visit_page_frame [of env cr p ?st0] vp by simp_all
    have fresh: "w \<notin> visited_urls st'" if "w \<in> set links" for w
      using visit_page_links [OF vp that] fr by simp
    have visited: "set links \<subseteq> visited_urls (fst ?loop)"
      using for_each_visits [of env cr depth "set_order env links" st'] fin res ord by simp
    have "visited_urls (fst ?loop) \<subseteq> visited_urls st' \<union> set (requests (fst ?loop))"
      by (rule for_each_preserves [where I = "\<lambda>s. visited_urls s \<subseteq> visited_urls st' \<union> set (requests s)"])
        (rule crawl_url_requested, assumption, simp)
    then have requested: "w \<in> set (requests (fst ?loop))" if "w \<in> set links" for w
      using visited fresh [OF that] that by blast
    let ?J = "\<lambda>s. \<forall>w e. w \<in> set (requests s) \<and> w \<notin> set (requests st') \<and> fetch_error env w = Some e
        \<longrightarrow> Error_processing w e \<in> set (log s)"
    have "?J (fst ?loop)"
    proof (rule for_each_preserves [where I = ?J])
      show "?J (fst (crawl_url env cr depth x t))" if "?J t" for x t
        using crawl_url_failures_logged [of t "set (requests st')" env cr depth x] that by blast
      show "?J st'" by blast
    qed
    moreover have "u \<notin> set (requests st')" using fresh [OF u] fr once by auto
    ultimately have "Error_processing u e' \<in> set (log (fst ?loop))"
      using requested [OF u] fu by blast
    then show ?thesis using requested [OF u] requested [OF v] res by simp
  qed
  show ?thesis using crawl_url_fetch_error [of url s env e cr d] second by blast
qed


theorem fetch_failure_isolated_witness:
  "crawl_url (site_env 1000) site_crawler (Suc 0) ''http://h/b'' (initial_state [])
     = (after_failure (initial_state []) ''http://h/b'' (sink (initial_state [])) (Http_error 404), True)
   \<and> Error_processing ''http://h/b'' (Http_error 404)
       \<in> set (log (fst (crawl_url (site_env 1000) site_crawler (Suc 1) ''http://h/'' (initial_state []))))
   \<and> ''http://h/b''
       \<in> set (requests (fst (crawl_url (site_env 1000) site_crawler (Suc 1) ''http://h/'' (initial_state []))))
   \<and> ''http://h/doc.pdf?v=2''
       \<in> set (requests (fst (crawl_url (site_env 1000) site_crawler (Suc 1) ''http://h/'' (initial_state []))))"
proof -
  let ?links = "[''http://h/a'', ''http://h/b'', ''http://h/doc.pdf?v=2'']"
  let ?st' = "\<lparr>visited_urls = {''http://h/''}, sink = [], requests = [''http://h/''],
               log = [Info_crawling ''http://h/'']\<rparr> :: string state"
  have a: "''http://h/b'' \<notin> visited_urls (initial_state [] :: string state)"
    "''http://h/'' \<notin> visited_urls (initial_state [] :: string state)"
    "set (requests (initial_state [] :: string state)) \<subseteq> visited_urls (initial_state [])"
    by (simp_all add: initial_state_def)
  have b: "fetch_error (site_env 1000) ''http://h/b'' = Some (Http_error 404)"
    by code_simp
  have c: "visit_page (site_env 1000) site_crawler ''http://h/''
      ((initial_state [])\<lparr>visited_urls := insert ''http://h/'' (visited_urls (initial_state [])),
         log := log (initial_state []) @ [Info_crawling ''http://h/'']\<rparr>) = (?st', Inr ?links)"
    by code_simp
  have d: "set (set_order (site_env 1000) ?links) = set ?links"
    by (simp add: site_env_def)
  have e: "snd (crawl_url (site_env 1000) site_crawler (Suc 1) ''http://h/'' (initial_state []))"
    by code_simp
  have m: "''http://h/b'' \<in> set ?links" "''http://h/doc.pdf?v=2'' \<in> set ?links"
    by simp_all
  show ?thesis
    using fetch_failure_isolated [where url = "''http://h/b''" and s = "initial_state []"
        and env = "site_env 1000" and e = "Http_error 404" and cr = site_crawler and d = 0
        and p = "''http://h/''" and st = "initial_state []" and st' = ?st' and links = ?links
        and depth = 1 and u = "''http://h/b''" and e' = "Http_error 404"
        and v = "''http://h/doc.pdf?v=2''"]
      a b c d e m
    by blast
qed

text \<open>
  C8. The text returned by \<^verbatim>\<open>extract_text\<close> has no newline in it: the text with its
  whitespace collapsed has none, so splitting it at newlines gives that text as the one
  line, and at most one line is kept and joined.
\<close>

theorem extract_text_single_line:
  "newline \<notin> set (fst (extract_text sp))
   \<and> py_split_on newline (join '' '' (py_split text)) = [join '' '' (py_split text)]
   \<and> length (filter keep_line (py_split_on newline (join '' '' (py_split text)))) \<le> 1"
  by (simp add: extract_text_def Let_def region_text_no_newline
      py_split_on_absent [OF collapse_no_newline])

text \<open>
  C9. A second call of \<^verbatim>\<open>extract_text\<close> on the tree that the first call has worked on
  returns the text of the first call, and leaves the tree as the first call left it.
\<close>

theorem extract_text_idempotent:
  "fst (extract_text (snd (extract_text sp))) = fst (extract_text sp)
   \<and> snd (extract_text (snd (extract_text sp))) = snd (extract_text sp)"
  by (simp add: extract_text_def Let_def strip_chrome_idem)

text \<open>
  C10. \<^verbatim>\<open>_crawl_url\<close> collects the links from the tree that \<^verbatim>\<open>extract_text\<close> has
  stripped: unless a write failed, the links of a page are those of \<^verbatim>\<open>get_links\<close> on
  the stripped tree, which has no \<^verbatim>\<open>script\<close>, \<^verbatim>\<open>style\<close>, \<^verbatim>\<open>head\<close>, \<^verbatim>\<open>noscript\<close> or
  \<^verbatim>\<open>iframe\<close> element and no element classified as navigation. So what is inside such
  an element adds no link: the page gives the same text, writes and links as the page
  without the element, and the whole crawl is the crawl of the site whose page has the
  element taken out.
\<close>

theorem chrome_links_never_followed:
  assumes "is_navigation_element t a \<or> is_non_content t a"
    and "html_parse env body = Some (plug c [Element t a kids])"
  shows "process_page env cr url (plug c [Element t a kids]) st = process_page env cr url (plug c []) st
    \<and> crawl_url (env\<lparr>html_parse := (html_parse env)(body := Some (plug c []))\<rparr>) cr depth url st
        = crawl_url env cr depth url st
    \<and> (snd (process_page env cr url sp st) = Inl Sink_error
        \<or> snd (process_page env cr url sp st) = get_links env cr (visited_urls st) (strip_chrome sp) url)
    \<and> find_all (\<lambda>t a. is_non_content t a \<or> is_navigation_element t a) (strip_chrome sp) = []"
proof -
  have "snd (process_page env cr url sp st) = Inl Sink_error
        \<or> snd (process_page env cr url sp st) = get_links env cr (visited_urls st) (strip_chrome sp) url"
    by (auto simp: process_page_def extract_text_def save_text_def Let_def
        split: prod.splits option.splits if_splits)
  moreover have "find_all (\<lambda>t a. is_non_content t a \<or> is_navigation_element t a) (strip_chrome sp) = []"
    by (simp add: strip_chrome_eq find_all_decompose_where)
  ultimately show ?thesis
    using process_page_plug [OF assms(1)] crawl_url_plug [OF assms] by simp
qed

theorem chrome_links_never_followed_witness:
  "process_page (site_env 1000) site_crawler ''http://h/'' seed_page (initial_state [])
     = (initial_state [], Inr [''http://h/a'', ''http://h/b'', ''http://h/doc.pdf?v=2''])
   \<and> get_links (site_env 1000) site_crawler {} seed_page ''http://h/''
     = Inr [''http://h/n'', ''http://h/a'', ''http://h/b'', ''http://h/doc.pdf?v=2'']"
proof -
  let ?rest = "[Element ''p'' no_attrs [Text ''Too short''],
      anchor ''/a'', anchor ''/b'', anchor ''/a'', anchor ''/doc.pdf?v=2'',
      anchor ''/img.png'', anchor ''http://other/x'']"
  have p: "seed_page = plug (Hole [] ?rest) [Element ''nav'' no_attrs [anchor ''/n'']]"
    by (simp add: seed_page_def)
  have h1: "is_navigation_element ''nav'' no_attrs \<or> is_non_content ''nav'' no_attrs"
    by (simp add: classified_nav)
  have h2: "html_parse (site_env 1000) ''seed'' = Some (plug (Hole [] ?rest) [Element ''nav'' no_attrs [anchor ''/n'']])"
    unfolding p [symmetric] by (simp add: site_env_def site_parse_def)
  have r: "process_page (site_env 1000) site_crawler ''http://h/'' (plug (Hole [] ?rest) []) (initial_state [])
     = (initial_state [], Inr [''http://h/a'', ''http://h/b'', ''http://h/doc.pdf?v=2''])"
    by code_simp
  have g: "get_links (site_env 1000) site_crawler {} seed_page ''http://h/''
     = Inr [''http://h/n'', ''http://h/a'', ''http://h/b'', ''http://h/doc.pdf?v=2'']"
    by code_simp
  show ?thesis
    using chrome_links_never_followed [OF h1 h2, of site_crawler "''http://h/''" "initial_state []"]
      r g
    unfolding p [symmetric] by simp
qed


end
